theory Spec2Isabelle
  imports Main "HOL-Library.Word"
begin

section \<open>Strings\<close>

text \<open>
  A JavaScript string is a sequence of 16-bit code units. Literals of the source are
  written as HOL strings and converted with \<open>str\<close>; every character that the
  source names is ASCII.
\<close>

type_synonym jsstring = "16 word list"

definition str :: "string \<Rightarrow> jsstring" where
  "str s = map (\<lambda>c. of_nat (of_char c)) s"

text \<open>
  \<^verbatim>\<open>s.replaceAll(pat, rep)\<close> for a pattern of one code unit and a replacement without
  \<^verbatim>\<open>$\<close>: every occurrence of the unit is replaced, from left to right.
\<close>

definition replaceAll :: "16 word \<Rightarrow> jsstring \<Rightarrow> jsstring \<Rightarrow> jsstring" where
  "replaceAll pat rep s = concat (map (\<lambda>c. if c = pat then rep else [c]) s)"

subsection \<open>utils.ts: escapeHtml\<close>

text \<open>
  \<^verbatim>\<open>
  return str
    .replaceAll('&', '&amp;')
    .replaceAll('"', '&quot;')
    .replaceAll("'", '&#39;')
    .replaceAll('<', '&lt;')
    .replaceAll('>', '&gt;')
  \<close>
  The code units are \<open>&\<close> = 0x26, \<open>"\<close> = 0x22, \<open>'\<close> = 0x27, \<open><\<close> = 0x3C,
  \<open>>\<close> = 0x3E.
\<close>

definition escapeHtml :: "jsstring \<Rightarrow> jsstring" where
  "escapeHtml s =
     replaceAll 0x3E (str ''&gt;'')
       (replaceAll 0x3C (str ''&lt;'')
         (replaceAll 0x27 (str ''&#39;'')
           (replaceAll 0x22 (str ''&quot;'')
             (replaceAll 0x26 (str ''&amp;'') s))))"

text \<open>
  The substitution as the specification words it: one pass over the input, each code
  unit replaced on its own.
\<close>

definition escapeUnit :: "16 word \<Rightarrow> jsstring" where
  "escapeUnit c =
     (if c = 0x26 then str ''&amp;''
      else if c = 0x22 then str ''&quot;''
      else if c = 0x27 then str ''&#39;''
      else if c = 0x3C then str ''&lt;''
      else if c = 0x3E then str ''&gt;''
      else [c])"

definition escapeSinglePass :: "jsstring \<Rightarrow> jsstring" where
  "escapeSinglePass s = concat (map escapeUnit s)"

section \<open>Values\<close>

text \<open>
  The values that the splitter and the guest tell apart with \<^verbatim>\<open>typeof\<close>. A host
  function is named by a label that stands for its identity. \<open>Proxy t\<close> is the guest
  closure \<^verbatim>\<open>(...params) => hostClient.call('onMethod', { methodId: t, params })\<close>.
  An object is the list of its own enumerable string-keyed properties in the order
  \<^verbatim>\<open>Object.entries\<close> yields them; an object of the program has each key once.
  An array is the list of its elements, without holes. Numbers are modelled by
  integers: as an index of an array, a number that is not an integer behaves like a
  negative one.
\<close>

datatype jsval =
    Undefined
  | Null
  | Boolean bool
  | Number int
  | String jsstring
  | Function string
  | Proxy int
  | Object "(jsstring \<times> jsval) list"
  | Array "jsval list"

type_synonym record_t = "(jsstring \<times> jsval) list"

fun typeof :: "jsval \<Rightarrow> string" where
  "typeof Undefined = ''undefined''"
| "typeof Null = ''object''"
| "typeof (Boolean b) = ''boolean''"
| "typeof (Number n) = ''number''"
| "typeof (String s) = ''string''"
| "typeof (Function f) = ''function''"
| "typeof (Proxy t) = ''function''"
| "typeof (Object es) = ''object''"
| "typeof (Array vs) = ''object''"

text \<open>The canonical decimal form of an array index, as a property key.\<close>

function decimal :: "nat \<Rightarrow> jsstring" where
  "decimal n =
     (if n < 10 then [0x30 + of_nat n]
      else decimal (n div 10) @ [0x30 + of_nat (n mod 10)])"
  by pat_completeness auto
termination
  by (relation "measure (\<lambda>n. n)") auto

declare decimal.simps [simp del]

text \<open>
  \<^verbatim>\<open>Object.entries(value)\<close>: the properties of a plain object, the elements of an
  array under their indices. The code calls it on values of type object only.
\<close>

fun entries :: "jsval \<Rightarrow> record_t" where
  "entries (Object es) = es"
| "entries (Array vs) = zip (map decimal [0..<length vs]) vs"
| "entries v = []"

text \<open>
  \<^verbatim>\<open>obj[key] = value\<close> on a plain object: an existing property keeps its place, a new
  one is added last. (JavaScript lists keys that are array indices before the others;
  the loops below add keys in the order of the source's entries, and what is proved
  of an object that was assigned to reads it by key.) An assignment to the key
  \<^verbatim>\<open>__proto__\<close> runs the setter that a plain object inherits: it may change the
  prototype and adds no property.
\<close>

definition protoKey :: jsstring where
  "protoKey = str ''__proto__''"

fun putOwn :: "record_t \<Rightarrow> jsstring \<Rightarrow> jsval \<Rightarrow> record_t" where
  "putOwn [] key v = [(key, v)]"
| "putOwn ((k, w) # es) key v =
     (if k = key then (k, v) # es else (k, w) # putOwn es key v)"

definition assign :: "record_t \<Rightarrow> jsstring \<Rightarrow> jsval \<Rightarrow> record_t" where
  "assign es key v = (if key = protoKey then es else putOwn es key v)"

section \<open>createSandbox: the capability splitter\<close>

text \<open>
  \<^verbatim>\<open>
  function extractMethods(source) {
    const constants = {}
    const methods = {}
    for (const [key, value] of Object.entries(source)) {
      switch (typeof value) {
        case 'function':
          methods[key] = methodsById.length
          methodsById.push(value)
          break
        case 'object': {
          if (value != null) {
            const child = extractMethods(value)
            constants[key] = child.constants
            if (Object.keys(child.methods).length > 0) {
              methods[key] = child.methods
            }
          } else {
            constants[key] = value
          }
          break
        }
        default:
          constants[key] = value
          break
      }
    }
    return { constants, methods }
  }
  \<close>
  \<open>extractLoop\<close> is the \<^verbatim>\<open>for\<close> loop over the remaining entries, with the two objects
  under construction and the table \<^verbatim>\<open>methodsById\<close> passed along and returned.
\<close>

function extractLoop ::
  "record_t \<Rightarrow> record_t \<Rightarrow> record_t \<Rightarrow> jsval list \<Rightarrow> (record_t \<times> record_t) \<times> jsval list"
where
  "extractLoop [] constants methods methodsById = ((constants, methods), methodsById)"
| "extractLoop ((key, value) # rest) constants methods methodsById =
     (if typeof value = ''function'' then
        extractLoop rest constants
          (assign methods key (Number (int (length methodsById))))
          (methodsById @ [value])
      else if typeof value = ''object'' then
        (if value \<noteq> Null then
           (case extractLoop (entries value) [] [] methodsById of
              ((childConstants, childMethods), methodsById') \<Rightarrow>
                extractLoop rest
                  (assign constants key (Object childConstants))
                  (if length childMethods > 0
                   then assign methods key (Object childMethods) else methods)
                  methodsById')
         else extractLoop rest (assign constants key value) methods methodsById)
      else extractLoop rest (assign constants key value) methods methodsById)"
  by pat_completeness auto
termination
proof (relation "measure (\<lambda>(es, c, m, t). sum_list (map (\<lambda>e. Suc (size (snd e))) es))")
  show "wf (measure (\<lambda>(es, c, m, t). sum_list (map (\<lambda>e. Suc (size (snd e))) es)))"
    by simp
next
  fix key :: jsstring and "value" :: jsval and rest constants methods :: record_t
    and methodsById :: "jsval list"
  assume obj: "typeof value = ''object''" "value \<noteq> Null"
  have zip_le: "sum_list (map (\<lambda>e. Suc (size (snd e))) (zip ks vs)) \<le> size_list size vs"
    for ks :: "jsstring list" and vs :: "jsval list"
    by (induction ks vs rule: list_induct2') auto
  have obj_le: "sum_list (map (\<lambda>e. Suc (size (snd e))) es) \<le> size_list (size_prod (\<lambda>k. 0) size) es"
    for es :: record_t
    by (induction es) auto
  have "sum_list (map (\<lambda>e. Suc (size (snd e))) (entries value)) < Suc (size value)"
  proof (cases "value")
    case (Object es)
    then show ?thesis using obj_le [of es] by simp
  next
    case (Array vs)
    then show ?thesis using zip_le [of "map decimal [0..<length vs]" vs] by simp
  qed (use obj in simp_all)
  then show "((entries value, [], [], methodsById),
              (key, value) # rest, constants, methods, methodsById)
             \<in> measure (\<lambda>(es, c, m, t). sum_list (map (\<lambda>e. Suc (size (snd e))) es))"
    by simp
qed auto

definition extractMethods :: "jsval \<Rightarrow> jsval list \<Rightarrow> (record_t \<times> record_t) \<times> jsval list" where
  "extractMethods source methodsById = extractLoop (entries source) [] [] methodsById"

text \<open>
  \<^verbatim>\<open>const { constants, methods } = extractMethods(opts?.globals ?? {})\<close>, with
  \<^verbatim>\<open>methodsById\<close> empty at the start.
\<close>

definition splitGlobals :: "jsval option \<Rightarrow> (record_t \<times> record_t) \<times> jsval list" where
  "splitGlobals globals =
     extractMethods (case globals of None \<Rightarrow> Object [] | Some g \<Rightarrow> g) []"

section \<open>The worker: setGlobals and run\<close>

text \<open>
  \<^verbatim>\<open>
  function injectMethods(methods, dest) {
    for (const [key, value] of Object.entries(methods)) {
      if (typeof value === 'object') {
        if (value) {
          const child = {}
          dest[key] = child
          injectMethods(value, child)
        }
      } else if (typeof value === 'number') {
        dest[key] = (...params) => {
          return hostClient.call('onMethod', { methodId: value, params })
        }
      }
    }
  }
  \<close>
  The function changes \<open>dest\<close> in place; here it returns the changed object. The
  child is a fresh object that only \<open>dest[key]\<close> refers to, so filling it after the
  assignment leaves \<open>dest[key]\<close> holding the filled child. The first argument is
  \<^verbatim>\<open>Object.entries(methods)\<close>.
\<close>

function injectMethods :: "record_t \<Rightarrow> record_t \<Rightarrow> record_t" where
  "injectMethods [] dest = dest"
| "injectMethods ((key, value) # rest) dest =
     (if typeof value = ''object'' then
        (if value \<noteq> Null then
           injectMethods rest (assign dest key (Object (injectMethods (entries value) [])))
         else injectMethods rest dest)
      else if typeof value = ''number'' then
        (case value of
           Number methodId \<Rightarrow> injectMethods rest (assign dest key (Proxy methodId))
         | _ \<Rightarrow> injectMethods rest dest)
      else injectMethods rest dest)"
  by pat_completeness auto
termination
proof (relation "measure (\<lambda>(es, d). sum_list (map (\<lambda>e. Suc (size (snd e))) es))")
  show "wf (measure (\<lambda>(es, d). sum_list (map (\<lambda>e. Suc (size (snd e))) es)))"
    by simp
next
  fix key :: jsstring and "value" :: jsval and rest dest :: record_t
  assume obj: "typeof value = ''object''" "value \<noteq> Null"
  have zip_le: "sum_list (map (\<lambda>e. Suc (size (snd e))) (zip ks vs)) \<le> size_list size vs"
    for ks :: "jsstring list" and vs :: "jsval list"
    by (induction ks vs rule: list_induct2') auto
  have obj_le: "sum_list (map (\<lambda>e. Suc (size (snd e))) es) \<le> size_list (size_prod (\<lambda>k. 0) size) es"
    for es :: record_t
    by (induction es) auto
  have "sum_list (map (\<lambda>e. Suc (size (snd e))) (entries value)) < Suc (size value)"
  proof (cases "value")
    case (Object es)
    then show ?thesis using obj_le [of es] by simp
  next
    case (Array vs)
    then show ?thesis using zip_le [of "map decimal [0..<length vs]" vs] by simp
  qed (use obj in simp_all)
  then show "((entries value, []), (key, value) # rest, dest)
             \<in> measure (\<lambda>(es, d). sum_list (map (\<lambda>e. Suc (size (snd e))) es))"
    by simp
qed auto

text \<open>
  \<^verbatim>\<open>
  setGlobals({ constants, methods }) {
    injectMethods(methods, constants)
    for (const [key, value] of Object.entries(constants)) {
      globalThis[key] = value
    }
  }
  \<close>
  The trees arrive through the channel as structured clones; they hold no function, so
  the clone has the same structure. \<open>globalThis\<close> stands for the global object by
  the properties that the installed names can meet and that take an assignment. A name
  that the scope holds read-only (as the scrubbing leaves a former getter such as
  \<^verbatim>\<open>navigator\<close>) is outside this model: the assignment to it fails in the worker.
\<close>

definition setGlobals :: "record_t \<Rightarrow> record_t \<Rightarrow> record_t \<Rightarrow> record_t" where
  "setGlobals constants methods globalThis =
     fold (\<lambda>(key, value) g. assign g key value) (injectMethods methods constants) globalThis"

datatype error = TypeError | ReferenceError

text \<open>
  \<^verbatim>\<open>run({ code })\<close> compiles any code. Modelled here is code of the form
  \<^verbatim>\<open>return x.k1. ... .kn\<close>: the identifier \<open>x\<close> is looked up in the global object
  (an unbound identifier is a ReferenceError), then each property is read (reading a
  property of \<open>undefined\<close> or \<open>null\<close> is a TypeError, a missing property reads as
  \<open>undefined\<close>). Own properties only are modelled, not the inherited ones (the
  methods of strings, arrays and functions): of a string and of an array the length
  and the elements, of a proxy closure its length 0 and its empty name, of an object
  its entries.
\<close>

fun getProperty :: "jsval \<Rightarrow> jsstring \<Rightarrow> error + jsval" where
  "getProperty Undefined key = Inl TypeError"
| "getProperty Null key = Inl TypeError"
| "getProperty (String s) key =
     (if key = str ''length'' then Inr (Number (int (length s)))
      else case find (\<lambda>i. decimal i = key) [0..<length s] of
             None \<Rightarrow> Inr Undefined
           | Some i \<Rightarrow> Inr (String [s ! i]))"
| "getProperty (Array vs) key =
     (if key = str ''length'' then Inr (Number (int (length vs)))
      else case map_of (entries (Array vs)) key of
             None \<Rightarrow> Inr Undefined
           | Some w \<Rightarrow> Inr w)"
| "getProperty (Proxy t) key =
     (if key = str ''length'' then Inr (Number 0)
      else if key = str ''name'' then Inr (String [])
      else Inr Undefined)"
| "getProperty v key =
     (case map_of (entries v) key of None \<Rightarrow> Inr Undefined | Some w \<Rightarrow> Inr w)"

fun getPath :: "jsval \<Rightarrow> jsstring list \<Rightarrow> error + jsval" where
  "getPath v [] = Inr v"
| "getPath v (key # keys) =
     (case getProperty v key of Inl e \<Rightarrow> Inl e | Inr w \<Rightarrow> getPath w keys)"

fun runReturn :: "record_t \<Rightarrow> jsstring list \<Rightarrow> error + jsval" where
  "runReturn globalThis [] = Inr Undefined"
| "runReturn globalThis (x # keys) =
     (case map_of globalThis x of
        None \<Rightarrow> Inl ReferenceError
      | Some v \<Rightarrow> getPath v keys)"

section \<open>createSandbox: the handler onMethod\<close>

text \<open>
  \<^verbatim>\<open>
  onMethod({ methodId, params }) {
    if (typeof methodId === 'number') {
      return methodsById[methodId](...params)
    }
  }
  \<close>
  Reading an array at a number that is not one of its indices yields \<open>undefined\<close>;
  calling a value that is not a function throws a TypeError. The handler either
  returns a value, hands the call over to a function of the table, or throws.
\<close>

datatype outcome = Returns jsval | Invokes jsval "jsval list" | Throws error

fun element :: "jsval list \<Rightarrow> jsval \<Rightarrow> jsval" where
  "element xs (Number n) = (if 0 \<le> n \<and> nat n < length xs then xs ! nat n else Undefined)"
| "element xs v = Undefined"

definition callValue :: "jsval \<Rightarrow> jsval list \<Rightarrow> outcome" where
  "callValue f params = (if typeof f = ''function'' then Invokes f params else Throws TypeError)"

definition onMethod :: "jsval list \<Rightarrow> jsval \<Rightarrow> jsval list \<Rightarrow> outcome" where
  "onMethod methodsById methodId params =
     (if typeof methodId = ''number'' then callValue (element methodsById methodId) params
      else Returns Undefined)"

section \<open>createSandbox: run and dispose\<close>

text \<open>
  The state that \<^verbatim>\<open>run\<close> and \<^verbatim>\<open>dispose\<close> touch: the host's port, the children of
  \<^verbatim>\<open>document.body\<close>, the iframe element, and the requests handed to the channel
  client.
\<close>

record session =
  portClosed :: bool
  body :: "nat list"
  iframe :: nat
  requests :: "(string \<times> jsstring) list"

datatype promise = Pending | Rejected error

text \<open>
  \<^verbatim>\<open>
  const dispose = () => {
    port.close()
    iframe.remove()
  }
  \<close>
  Closing a closed port and removing a detached element do nothing.
\<close>

definition dispose :: "session \<Rightarrow> session" where
  "dispose s = s\<lparr>portClosed := True, body := removeAll (iframe s) (body s)\<rparr>"

text \<open>
  Modelled from the spec: the channel client of the library shrimp-rpc, which the
  specification treats as an abstract channel with \<^verbatim>\<open>call(method, params)\<close> returning a
  promise. A call hands one request to the channel and returns a promise that the
  reply settles later.
\<close>

definition call :: "session \<Rightarrow> string \<Rightarrow> jsstring \<Rightarrow> session \<times> promise" where
  "call s method params = (s\<lparr>requests := requests s @ [(method, params)]\<rparr>, Pending)"

text \<open>
  \<^verbatim>\<open>
  run(code) {
    return guestClient.call('run', { code })
  }
  \<close>
\<close>

definition run :: "session \<Rightarrow> jsstring \<Rightarrow> session \<times> promise" where
  "run s code = call s ''run'' code"

section \<open>createSandbox: the policy string\<close>

record CreateSandboxOptions =
  globals :: "jsval option"
  contentSecurityPolicy :: "jsstring option"
  name :: "jsstring option"

text \<open>
  \<^verbatim>\<open>
  const fullContentSecurityPolicy = `default-src 'none'; script-src 'unsafe-inline'
    'unsafe-eval'; worker-src data:; ${opts?.contentSecurityPolicy ?? ''}`
  \<close>
  (one line in the source).
\<close>

definition fullContentSecurityPolicy :: "CreateSandboxOptions option \<Rightarrow> jsstring" where
  "fullContentSecurityPolicy opts =
     str ''default-src 'none'; script-src 'unsafe-inline' 'unsafe-eval'; worker-src data:; '' @
     (case opts of
        None \<Rightarrow> []
      | Some opt \<Rightarrow> (case contentSecurityPolicy opt of None \<Rightarrow> [] | Some extra \<Rightarrow> extra))"

section \<open>The worker: scrubbing the global scope\<close>














section \<open>Reading the value graph\<close>

text \<open>The functions of a graph in the order of the traversal, arrays included.\<close>

fun callables :: "jsval \<Rightarrow> jsval list" where
  "callables (Function f) = [Function f]"
| "callables (Proxy t) = [Proxy t]"
| "callables (Object es) = concat (map (\<lambda>e. callables (snd e)) es)"
| "callables (Array vs) = concat (map callables vs)"
| "callables v = []"

text \<open>The numbers of a methods tree, from left to right.\<close>

fun tokens :: "jsval \<Rightarrow> int list" where
  "tokens (Number n) = [n]"
| "tokens (Object es) = concat (map (\<lambda>e. tokens (snd e)) es)"
| "tokens v = []"

text \<open>No value of type function anywhere in the tree.\<close>

fun functionFree :: "jsval \<Rightarrow> bool" where
  "functionFree (Function f) = False"
| "functionFree (Proxy t) = False"
| "functionFree (Object es) = list_all (\<lambda>e. functionFree (snd e)) es"
| "functionFree (Array vs) = list_all functionFree vs"
| "functionFree v = True"

text \<open>Every function of the tree is a proxy closure.\<close>

fun proxiesOnly :: "jsval \<Rightarrow> bool" where
  "proxiesOnly (Function f) = False"
| "proxiesOnly (Object es) = list_all (\<lambda>e. proxiesOnly (snd e)) es"
| "proxiesOnly (Array vs) = list_all proxiesOnly vs"
| "proxiesOnly v = True"

text \<open>
  At every depth an object has each key once, and no own property of the name
  \<^verbatim>\<open>__proto__\<close>.
\<close>

fun plainKeys :: "jsval \<Rightarrow> bool" where
  "plainKeys (Object es) =
     (distinct (protoKey # map fst es) \<and> list_all (\<lambda>e. plainKeys (snd e)) es)"
| "plainKeys (Array vs) = list_all plainKeys vs"
| "plainKeys v = True"

text \<open>A number that is an index of the table.\<close>

fun validIndex :: "jsval list \<Rightarrow> jsval \<Rightarrow> bool" where
  "validIndex xs (Number n) = (0 \<le> n \<and> nat n < length xs)"
| "validIndex xs v = False"





text \<open>
  Reading a value along a path of keys, by own properties; \<open>None\<close> where a key is
  missing.
\<close>

fun lookupPath :: "jsval \<Rightarrow> jsstring list \<Rightarrow> jsval option" where
  "lookupPath v [] = Some v"
| "lookupPath v (key # keys) =
     (case map_of (entries v) key of None \<Rightarrow> None | Some w \<Rightarrow> lookupPath w keys)"

text \<open>
  Every function of the source has, at its path in the methods tree, a token that is the
  index of this function in the table.
\<close>

definition resolves :: "jsval \<Rightarrow> record_t \<Rightarrow> jsval list \<Rightarrow> bool" where
  "resolves source methods methodsById =
     (\<forall>p f. p \<noteq> [] \<longrightarrow> lookupPath source p = Some f \<longrightarrow> typeof f = ''function'' \<longrightarrow>
        (\<exists>i. lookupPath (Object methods) p = Some (Number (int i)) \<and>
             i < length methodsById \<and> methodsById ! i = f))"

text \<open>
  Every value of the source that is not a function has its place in the constants tree:
  a primitive or \<open>null\<close> as it is, an object or an array as a plain object.
\<close>

definition keeps :: "jsval \<Rightarrow> record_t \<Rightarrow> bool" where
  "keeps source constants =
     (\<forall>p v. p \<noteq> [] \<longrightarrow> lookupPath source p = Some v \<longrightarrow> typeof v \<noteq> ''function'' \<longrightarrow>
        (if typeof v = ''object'' \<and> v \<noteq> Null
         then \<exists>cs. lookupPath (Object constants) p = Some (Object cs)
         else lookupPath (Object constants) p = Some v))"

text \<open>
  Every token of the methods tree has, at its path in the merged tree, the proxy closure
  of that token.
\<close>

definition installs :: "record_t \<Rightarrow> record_t \<Rightarrow> bool" where
  "installs methods merged =
     (\<forall>p n. p \<noteq> [] \<longrightarrow> lookupPath (Object methods) p = Some (Number n) \<longrightarrow>
        lookupPath (Object merged) p = Some (Proxy n))"

text \<open>
  Every function of the source has, at its path in the merged tree, a proxy closure whose
  token is the index of this function in the table.
\<close>

definition proxied :: "jsval \<Rightarrow> record_t \<Rightarrow> jsval list \<Rightarrow> bool" where
  "proxied source merged methodsById =
     (\<forall>p f. p \<noteq> [] \<longrightarrow> lookupPath source p = Some f \<longrightarrow> typeof f = ''function'' \<longrightarrow>
        (\<exists>i. lookupPath (Object merged) p = Some (Proxy (int i)) \<and>
             i < length methodsById \<and> methodsById ! i = f))"

text \<open>The loop leaves the keys alone that it does not visit.\<close>

definition framed :: "jsstring list \<Rightarrow> record_t \<Rightarrow> record_t \<Rightarrow> bool" where
  "framed ks m m' = (\<forall>k. k \<notin> set ks \<longrightarrow> map_of m' k = map_of m k)"

text \<open>
  The globals of the README's example of nesting, with a constant added beside the two
  functions.
\<close>

definition nestedGlobals :: jsval where
  "nestedGlobals =
     Object
       [(str ''math'',
         Object [(str ''pi'', Number 3),
                 (str ''add'', Function ''add''),
                 (str ''multiply'', Function ''multiply'')]),
        (str ''version'', String (str ''1.0.0'')),
        (str ''log'', Function ''log'')]"

text \<open>The globals of the README's example of state kept between runs.\<close>

definition fruitGlobals :: jsval where
  "fruitGlobals = Object [(str ''fruit'', Array [String (str ''apple''), String (str ''banana'')])]"

declare extractLoop.simps [simp del]

declare injectMethods.simps [simp del]

section \<open>Escaping\<close>

lemma replaceAll_append: "replaceAll p r (a @ b) = replaceAll p r a @ replaceAll p r b"
  by (simp add: replaceAll_def)

lemma escapeHtml_append: "escapeHtml (a @ b) = escapeHtml a @ escapeHtml b"
  by (simp add: escapeHtml_def replaceAll_append)

lemma escapeHtml_Nil: "escapeHtml [] = []"
  by (simp add: escapeHtml_def replaceAll_def)

lemma escapeHtml_unit: "escapeHtml [c] = escapeUnit c"
  by (simp add: escapeHtml_def escapeUnit_def replaceAll_def str_def)

lemma escapeHtml_Cons: "escapeHtml (c # s) = escapeUnit c @ escapeHtml s"
  using escapeHtml_append [of "[c]" s] by (simp add: escapeHtml_unit)

lemma escapeHtml_concat: "escapeHtml s = escapeSinglePass s"
  by (induction s) (simp_all add: escapeHtml_Nil escapeHtml_Cons escapeSinglePass_def)

lemma escapeUnit_raw: "set (escapeUnit c) \<inter> {0x22, 0x27, 0x3C, 0x3E} = {}"
  by (simp add: escapeUnit_def str_def)

lemma escapeHtml_raw: "set (escapeHtml s) \<inter> {0x22, 0x27, 0x3C, 0x3E} = {}"
  using escapeUnit_raw by (induction s) (auto simp add: escapeHtml_Nil escapeHtml_Cons)

lemma escapeHtml_others:
  "escapeHtml (filter (\<lambda>c. c \<notin> {0x26, 0x22, 0x27, 0x3C, 0x3E}) s) =
     filter (\<lambda>c. c \<notin> {0x26, 0x22, 0x27, 0x3C, 0x3E}) s"
  by (induction s) (simp_all add: escapeHtml_Nil escapeHtml_Cons escapeUnit_def)

text \<open>
  Claim C8. The five passes of \<open>escapeHtml\<close>, the one for \<open>&\<close> first, give on every
  string what a single pass gives that replaces each of \<open>& " ' < >\<close> by its entity and
  keeps every other code unit; the result holds none of \<open>" ' < >\<close>; a string without
  the five characters is returned as it is.
\<close>

theorem escapeHtml_substitutes:
  "escapeHtml s = escapeSinglePass s \<and>
   set (escapeHtml s) \<inter> {0x22, 0x27, 0x3C, 0x3E} = {} \<and>
   escapeHtml (filter (\<lambda>c. c \<notin> {0x26, 0x22, 0x27, 0x3C, 0x3E}) s) =
     filter (\<lambda>c. c \<notin> {0x26, 0x22, 0x27, 0x3C, 0x3E}) s"
  using escapeHtml_concat escapeHtml_raw escapeHtml_others by blast

theorem escapeHtml_substitutes_witness:
  "escapeHtml (str ''a<b & 'c' > d'' @ [0x22]) =
     str ''a&lt;b &amp; &#39;c&#39; &gt; d&quot;''"
  using escapeHtml_substitutes [of "str ''a<b & 'c' > d'' @ [0x22]"]
  by (simp add: escapeSinglePass_def escapeUnit_def str_def)

section \<open>The policy string\<close>

text \<open>
  Claim C9. For every extra directive string that the caller supplies, the policy
  string is the fixed baseline followed by that string, unchanged.
\<close>

theorem fullContentSecurityPolicy_verbatim:
  "contentSecurityPolicy opt = Some extra \<Longrightarrow>
   fullContentSecurityPolicy (Some opt) =
     str ''default-src 'none'; script-src 'unsafe-inline' 'unsafe-eval'; worker-src data:; '' @ extra"
  by (simp add: fullContentSecurityPolicy_def)

theorem fullContentSecurityPolicy_verbatim_witness:
  "fullContentSecurityPolicy
     (Some \<lparr>globals = None, contentSecurityPolicy = Some (str ''connect-src <&>''), name = None\<rparr>) =
   str ''default-src 'none'; script-src 'unsafe-inline' 'unsafe-eval'; worker-src data:; connect-src <&>''"
  using fullContentSecurityPolicy_verbatim
    [of "\<lparr>globals = None, contentSecurityPolicy = Some (str ''connect-src <&>''), name = None\<rparr>"
        "str ''connect-src <&>''"]
  by (simp add: str_def)

section \<open>Dispatch\<close>

text \<open>
  Claim C10. A method id that is not a number makes \<open>onMethod\<close> return \<open>undefined\<close>;
  no function of the table is invoked.
\<close>

theorem onMethod_not_number:
  "typeof methodId \<noteq> ''number'' \<Longrightarrow> onMethod methodsById methodId params = Returns Undefined"
  by (simp add: onMethod_def)

theorem onMethod_not_number_witness:
  "onMethod [Function ''f''] (String (str ''0'')) [Number 1] = Returns Undefined \<and>
   onMethod [Function ''f''] Null [] = Returns Undefined"
  using onMethod_not_number [of "String (str ''0'')" "[Function ''f'']" "[Number 1]"]
    onMethod_not_number [of Null "[Function ''f'']" "[]"]
  by simp

text \<open>
  Claim C3, as stated: a token that is not an index of the table is answered with
  \<open>undefined\<close> and no error. The number 1 is not an index of a table of one function,
  and \<open>onMethod\<close> throws a TypeError there.
\<close>

theorem onMethod_out_of_range_counterexample:
  "onMethod [Function ''f''] (Number 1) [] = Throws TypeError \<and>
   onMethod [Function ''f''] (Number 1) [] \<noteq> Returns Undefined"
  by (simp add: onMethod_def callValue_def)

text \<open>
  Claim C3, amended. For a method id that is not an index of the table, \<open>onMethod\<close>
  returns \<open>undefined\<close> when the id is not a number, and throws a TypeError when it is a
  number (the table has no function there to call); it invokes nothing in both cases.
\<close>

theorem onMethod_invalid_index:
  "\<not> validIndex methodsById methodId \<Longrightarrow>
   onMethod methodsById methodId params =
     (if typeof methodId = ''number'' then Throws TypeError else Returns Undefined)"
  by (cases methodId) (auto simp: onMethod_def callValue_def)

theorem onMethod_invalid_index_witness:
  "onMethod [Function ''f''] (Number (- 1)) [] = Throws TypeError \<and>
   onMethod [Function ''f''] (Number 5) [] = Throws TypeError \<and>
   onMethod [Function ''f''] Undefined [] = Returns Undefined"
  using onMethod_invalid_index [of "[Function ''f'']" "Number (- 1)" "[]"]
    onMethod_invalid_index [of "[Function ''f'']" "Number 5" "[]"]
    onMethod_invalid_index [of "[Function ''f'']" Undefined "[]"]
  by simp

section \<open>The session\<close>

text \<open>
  Claim C7. Disposing a session twice leaves it in the state that disposing it once
  does: the port closed, the iframe out of the document. \<open>dispose\<close> has no failing
  branch, so no call of it raises an error.
\<close>

theorem dispose_idempotent:
  "dispose (dispose s) = dispose s \<and>
   portClosed (dispose s) \<and> iframe s \<notin> set (body (dispose s))"
  by (simp add: dispose_def)

theorem dispose_idempotent_witness:
  "dispose (dispose \<lparr>portClosed = False, body = [3, 7], iframe = 7, requests = []\<rparr>) =
     \<lparr>portClosed = True, body = [3], iframe = 7, requests = []\<rparr>"
  using dispose_idempotent [of "\<lparr>portClosed = False, body = [3, 7], iframe = 7, requests = []\<rparr>"]
  by (simp add: dispose_def)

text \<open>
  Claim C4, evaluated on the code: after \<open>dispose\<close>, \<open>run\<close> still hands a request to the
  channel client and returns a promise that is pending, not one rejected with an error
  of disposal.
\<close>

theorem run_after_dispose_calls_channel:
  "run (dispose \<lparr>portClosed = False, body = [7], iframe = 7, requests = []\<rparr>) (str ''return 1'') =
     (\<lparr>portClosed = True, body = [], iframe = 7, requests = [(''run'', str ''return 1'')]\<rparr>,
      Pending)"
  by (simp add: run_def call_def dispose_def)

section \<open>Scrubbing\<close>























section \<open>Array indices as keys\<close>

lemma digit_inj:
  "a < 10 \<Longrightarrow> b < 10 \<Longrightarrow> (0x30 + of_nat a :: 16 word) = 0x30 + of_nat b \<Longrightarrow> a = b"
proof -
  assume a: "a < 10" and b: "b < 10" and e: "(0x30 + of_nat a :: 16 word) = 0x30 + of_nat b"
  then have "(of_nat a :: 16 word) = of_nat b" by simp
  then have "unat (of_nat a :: 16 word) = unat (of_nat b :: 16 word)" by simp
  then show "a = b" using a b by (simp add: unat_of_nat)
qed

lemma decimal_nonempty: "decimal n \<noteq> []"
  by (subst decimal.simps) simp

lemma decimal_length: "10 \<le> n \<Longrightarrow> 2 \<le> length (decimal n)"
proof -
  assume "10 \<le> n"
  then have "decimal n = decimal (n div 10) @ [0x30 + of_nat (n mod 10)]"
    by (subst decimal.simps) simp
  moreover have "1 \<le> length (decimal (n div 10))"
    using decimal_nonempty [of "n div 10"] by (cases "decimal (n div 10)") auto
  ultimately show ?thesis by simp
qed

lemma decimal_inj: "decimal n = decimal m \<Longrightarrow> n = m"
proof (induction n arbitrary: m rule: decimal.induct)
  case (1 n)
  show ?case
  proof (cases "n < 10")
    case True
    then have n: "decimal n = [0x30 + of_nat n]" by (subst decimal.simps) simp
    show ?thesis
    proof (cases "m < 10")
      case mT: True
      then have "decimal m = [0x30 + of_nat m]" by (subst decimal.simps) simp
      with n "1.prems" True mT show ?thesis by (auto dest: digit_inj)
    next
      case False
      then have "2 \<le> length (decimal m)" by (simp add: decimal_length)
      with n "1.prems" show ?thesis by simp
    qed
  next
    case False
    then have n: "decimal n = decimal (n div 10) @ [0x30 + of_nat (n mod 10)]"
      by (subst decimal.simps) simp
    show ?thesis
    proof (cases "m < 10")
      case True
      then have "decimal m = [0x30 + of_nat m]" by (subst decimal.simps) simp
      moreover have "2 \<le> length (decimal n)" using False by (simp add: decimal_length)
      ultimately show ?thesis using "1.prems" by simp
    next
      case mF: False
      then have m: "decimal m = decimal (m div 10) @ [0x30 + of_nat (m mod 10)]"
        by (subst decimal.simps) simp
      from n m "1.prems" have e: "decimal (n div 10) = decimal (m div 10)"
        "(0x30 + of_nat (n mod 10) :: 16 word) = 0x30 + of_nat (m mod 10)" by auto
      from "1.IH" [OF False e(1)] have "n div 10 = m div 10" .
      moreover have "n mod 10 = m mod 10" using e(2) by (auto intro: digit_inj)
      ultimately show ?thesis by (metis div_mult_mod_eq)
    qed
  qed
qed

lemma distinct_decimal: "distinct (map decimal [0..<n])"
  by (simp add: distinct_map inj_on_def decimal_inj)

lemma digit_not_underscore: "d < 10 \<Longrightarrow> (0x30 + of_nat d :: 16 word) \<noteq> 0x5F"
proof
  assume d: "d < 10" and e: "(0x30 + of_nat d :: 16 word) = 0x5F"
  then have "(of_nat d :: 16 word) = 0x2F" by simp
  then have "unat (of_nat d :: 16 word) = unat (0x2F :: 16 word)" by simp
  then show False using d by (simp add: unat_of_nat)
qed

lemma decimal_digits: "0x5F \<notin> set (decimal n)"
proof (induction n rule: decimal.induct)
  case (1 n)
  show ?case
  proof (cases "n < 10")
    case True
    then show ?thesis
      using digit_not_underscore [of n] by (subst decimal.simps) simp
  next
    case False
    have "n mod 10 < 10" by simp
    from digit_not_underscore [OF this] "1.IH" [OF False] False show ?thesis
      by (subst decimal.simps) simp
  qed
qed

lemma decimal_not_protoKey: "decimal n \<noteq> protoKey"
proof
  assume "decimal n = protoKey"
  moreover have "0x5F \<in> set protoKey" by (simp add: protoKey_def str_def)
  ultimately show False using decimal_digits [of n] by simp
qed

lemma distinct_entries_Array: "distinct (protoKey # map fst (entries (Array vs)))"
  using decimal_not_protoKey [THEN not_sym] by (auto simp: distinct_decimal)

lemma entries_Array_keys: "map fst (entries (Array vs)) = map decimal [0..<length vs]"
  by simp

lemma map_of_entries_Array:
  "i < length vs \<Longrightarrow> map_of (entries (Array vs)) (decimal i) = Some (vs ! i)"
proof -
  assume i: "i < length vs"
  have "map_of (zip (map decimal [0..<length vs]) vs) (map decimal [0..<length vs] ! i) = Some (vs ! i)"
    by (rule map_of_zip_nth) (use i distinct_decimal in auto)
  then show ?thesis using i by simp
qed

section \<open>The splitter, case by case\<close>

lemma extractLoop_function:
  "typeof value = ''function'' \<Longrightarrow>
   extractLoop ((key, value) # rest) c m t =
     extractLoop rest c (assign m key (Number (int (length t)))) (t @ [value])"
  by (simp add: extractLoop.simps)

lemma extractLoop_object:
  "typeof value = ''object'' \<Longrightarrow> value \<noteq> Null \<Longrightarrow>
   extractLoop (entries value) [] [] t = ((cc, cm), t1) \<Longrightarrow>
   extractLoop ((key, value) # rest) c m t =
     extractLoop rest (assign c key (Object cc))
       (if cm \<noteq> [] then assign m key (Object cm) else m) t1"
  by (simp add: extractLoop.simps)

lemma extractLoop_primitive:
  "typeof value \<noteq> ''function'' \<Longrightarrow> typeof value \<noteq> ''object'' \<Longrightarrow>
   extractLoop ((key, value) # rest) c m t = extractLoop rest (assign c key value) m t"
  by (simp add: extractLoop.simps)

lemma extractLoop_null:
  "extractLoop ((key, Null) # rest) c m t = extractLoop rest (assign c key Null) m t"
  by (simp add: extractLoop.simps)

lemma extractLoop_constant:
  assumes "typeof value \<noteq> ''function''" and "typeof value \<noteq> ''object'' \<or> value = Null"
  shows "extractLoop ((key, value) # rest) c m t = extractLoop rest (assign c key value) m t"
proof (cases "value = Null")
  case True
  then show ?thesis by (simp only: extractLoop_null)
next
  case False
  with assms have "typeof value \<noteq> ''object''" by blast
  with assms(1) show ?thesis by (rule extractLoop_primitive)
qed

lemma snd_entries_Array: "map snd (entries (Array vs)) = vs"
  by simp

lemma callables_entries_Array:
  "concat (map (\<lambda>e. callables (snd e)) (entries (Array vs))) = callables (Array vs)"
proof -
  have "map (\<lambda>e. callables (snd e)) (entries (Array vs)) = map callables (map snd (entries (Array vs)))"
    by (simp only: map_map comp_def)
  then show ?thesis by (simp only: snd_entries_Array callables.simps)
qed

lemma callables_entries:
  "typeof v = ''object'' \<Longrightarrow>
   concat (map (\<lambda>e. callables (snd e)) (entries v)) = callables v"
  by (cases v) (simp_all add: callables_entries_Array del: entries.simps(2))

lemma callables_constant:
  "typeof value \<noteq> ''function'' \<Longrightarrow> typeof value \<noteq> ''object'' \<or> value = Null \<Longrightarrow>
   callables value = []"
  by (cases "value") auto

lemma callables_function: "typeof value = ''function'' \<Longrightarrow> callables value = [value]"
  by (cases "value") auto

lemma extractLoop_table:
  "snd (extractLoop es c m t) = t @ concat (map (\<lambda>e. callables (snd e)) es)"
proof (induction es c m t rule: extractLoop.induct)
  case (1 constants methods methodsById)
  then show ?case by (simp add: extractLoop.simps(1))
next
  case (2 key "value" rest constants methods methodsById)
  consider (fn) "typeof value = ''function''"
    | (obj) "typeof value \<noteq> ''function''" "typeof value = ''object''" "value \<noteq> Null"
    | (const) "typeof value \<noteq> ''function''" "typeof value \<noteq> ''object'' \<or> value = Null"
    by blast
  then show ?case
  proof cases
    case fn
    have "snd (extractLoop rest constants (assign methods key (Number (int (length methodsById))))
            (methodsById @ [value])) =
          (methodsById @ [value]) @ concat (map (\<lambda>e. callables (snd e)) rest)"
      by (rule "2.IH"(1) [OF fn])
    then show ?thesis
      by (simp add: callables_function [OF fn] extractLoop_function [OF fn])
  next
    case obj
    obtain cc cm t1 where child: "extractLoop (entries value) [] [] methodsById = ((cc, cm), t1)"
      by (metis surj_pair)
    have t1: "t1 = methodsById @ callables value"
      using "2.IH"(2) [OF obj] child obj(2) by (simp add: callables_entries)
    have "snd (extractLoop rest (assign constants key (Object cc))
                 (if 0 < length cm then assign methods key (Object cm) else methods) t1) =
          t1 @ concat (map (\<lambda>e. callables (snd e)) rest)"
      using "2.IH"(3) [OF obj, of "(cc, cm)" t1 cc cm] child by simp
    then show ?thesis
      using t1 by (simp add: extractLoop_object [OF obj(2,3) child])
  next
    case const
    have "snd (extractLoop rest (assign constants key value) methods methodsById) =
          methodsById @ concat (map (\<lambda>e. callables (snd e)) rest)"
    proof (cases "typeof value = ''object''")
      case True
      with const have "\<not> value \<noteq> Null" by simp
      from "2.IH"(4) [OF const(1) True this] show ?thesis .
    next
      case False
      from "2.IH"(5) [OF const(1) False] show ?thesis .
    qed
    then show ?thesis
      by (simp add: callables_constant [OF const] extractLoop_constant [OF const])
  qed
qed

lemma list_all_putOwn: "list_all P es \<Longrightarrow> P (k, v) \<Longrightarrow> list_all P (putOwn es k v)"
  by (induction es) auto

lemma list_all_assign: "list_all P es \<Longrightarrow> P (k, v) \<Longrightarrow> list_all P (assign es k v)"
  by (simp add: assign_def list_all_putOwn)

lemma map_fst_putOwn:
  "map fst (putOwn es k v) = (if k \<in> set (map fst es) then map fst es else map fst es @ [k])"
  by (induction es) (fastforce simp: image_iff)+

lemma keys_putOwn: "set (map fst (putOwn es k v)) = insert k (set (map fst es))"
  unfolding map_fst_putOwn by auto

lemma keys_putOwn_image: "fst ` set (putOwn es k v) = insert k (fst ` set es)"
  using keys_putOwn [of es k v] by simp

lemma keys_assign: "set (map fst (assign es k v)) \<subseteq> insert k (set (map fst es))"
  unfolding assign_def using keys_putOwn [of es k v] by auto

lemma putOwn_fresh: "k \<notin> set (map fst es) \<Longrightarrow> putOwn es k v = es @ [(k, v)]"
  by (induction es) auto

lemma assign_fresh:
  "k \<noteq> protoKey \<Longrightarrow> k \<notin> set (map fst es) \<Longrightarrow> assign es k v = es @ [(k, v)]"
  by (simp add: assign_def putOwn_fresh)

lemma map_of_putOwn: "map_of (putOwn es k v) = (map_of es)(k \<mapsto> v)"
  by (induction es) (auto simp: fun_eq_iff)

lemma map_of_assign: "k \<noteq> protoKey \<Longrightarrow> map_of (assign es k v) = (map_of es)(k \<mapsto> v)"
  by (simp add: assign_def map_of_putOwn)

lemma map_of_assign_other: "k' \<noteq> k \<Longrightarrow> map_of (assign es k v) k' = map_of es k'"
  by (simp add: assign_def map_of_putOwn)

lemma functionFree_constant:
  "typeof value \<noteq> ''function'' \<Longrightarrow> typeof value \<noteq> ''object'' \<or> value = Null \<Longrightarrow>
   functionFree value"
  by (cases "value") auto

lemma extractLoop_functionFree:
  "list_all (\<lambda>e. functionFree (snd e)) c \<Longrightarrow> list_all (\<lambda>e. functionFree (snd e)) m \<Longrightarrow>
   list_all (\<lambda>e. functionFree (snd e)) (fst (fst (extractLoop es c m t))) \<and>
   list_all (\<lambda>e. functionFree (snd e)) (snd (fst (extractLoop es c m t)))"
proof (induction es c m t rule: extractLoop.induct)
  case (1 constants methods methodsById)
  then show ?case by (simp add: extractLoop.simps(1))
next
  case (2 key "value" rest constants methods methodsById)
  let ?F = "list_all (\<lambda>e. functionFree (snd e))"
  consider (fn) "typeof value = ''function''"
    | (obj) "typeof value \<noteq> ''function''" "typeof value = ''object''" "value \<noteq> Null"
    | (const) "typeof value \<noteq> ''function''" "typeof value \<noteq> ''object'' \<or> value = Null"
    by blast
  then show ?case
  proof cases
    case fn
    have "?F (assign methods key (Number (int (length methodsById))))"
      using "2.prems"(2) by (simp add: list_all_assign)
    from "2.IH"(1) [OF fn "2.prems"(1) this] show ?thesis
      by (simp only: extractLoop_function [OF fn])
  next
    case obj
    obtain cc cm t1 where child: "extractLoop (entries value) [] [] methodsById = ((cc, cm), t1)"
      by (metis surj_pair)
    have ch: "?F cc \<and> ?F cm"
      using "2.IH"(2) [OF obj] child by simp
    have c: "?F (assign constants key (Object cc))"
      using "2.prems"(1) ch by (simp add: list_all_assign)
    have m: "?F (if 0 < length cm then assign methods key (Object cm) else methods)"
      using "2.prems"(2) ch by (simp add: list_all_assign)
    from "2.IH"(3) [OF obj child [symmetric] refl c m] show ?thesis
      by (simp add: extractLoop_object [OF obj(2,3) child])
  next
    case const
    have c: "?F (assign constants key value)"
      using "2.prems"(1) functionFree_constant [OF const] by (simp add: list_all_assign)
    have "?F (fst (fst (extractLoop rest (assign constants key value) methods methodsById))) \<and>
          ?F (snd (fst (extractLoop rest (assign constants key value) methods methodsById)))"
    proof (cases "typeof value = ''object''")
      case True
      with const have "\<not> value \<noteq> Null" by simp
      from "2.IH"(4) [OF const(1) True this c "2.prems"(2)] show ?thesis .
    next
      case False
      from "2.IH"(5) [OF const(1) False c "2.prems"(2)] show ?thesis .
    qed
    then show ?thesis
      by (simp only: extractLoop_constant [OF const])
  qed
qed

lemma plainKeys_entries:
  "plainKeys value \<Longrightarrow>
   distinct (protoKey # map fst (entries value)) \<and> list_all (\<lambda>e. plainKeys (snd e)) (entries value)"
proof (cases "value")
  case (Array vs)
  assume "plainKeys value"
  with Array have "list_all plainKeys (map snd (entries (Array vs)))"
    by (simp only: snd_entries_Array plainKeys.simps)
  then have "list_all (\<lambda>e. plainKeys (snd e)) (entries (Array vs))"
    by (simp add: list_all_iff del: entries.simps)
  moreover have "distinct (protoKey # map fst (entries (Array vs)))"
    by (rule distinct_entries_Array)
  ultimately show ?thesis using Array by simp
qed simp_all

lemma upt_split: "a \<le> b \<Longrightarrow> b \<le> c \<Longrightarrow> map int [a..<b] @ map int [b..<c] = map int [a..<c]"
  by (metis le_Suc_ex map_append upt_add_eq_append)

lemma extractLoop_tokens:
  "distinct (protoKey # map fst es) \<Longrightarrow> set (map fst es) \<inter> set (map fst m) = {} \<Longrightarrow>
   list_all (\<lambda>e. plainKeys (snd e)) es \<Longrightarrow>
   concat (map (\<lambda>e. tokens (snd e)) (snd (fst (extractLoop es c m t)))) =
     concat (map (\<lambda>e. tokens (snd e)) m) @
     map int [length t ..< length (snd (extractLoop es c m t))]"
proof (induction es c m t rule: extractLoop.induct)
  case (1 constants methods methodsById)
  then show ?case by (simp add: extractLoop.simps(1))
next
  case (2 key "value" rest constants methods methodsById)
  let ?T = "\<lambda>m. concat (map (\<lambda>e. tokens (snd e)) m)"
  from "2.prems" have fresh: "key \<notin> set (map fst methods)" "key \<notin> set (map fst rest)"
    and np: "key \<noteq> protoKey"
    and rest: "distinct (protoKey # map fst rest)" "list_all (\<lambda>e. plainKeys (snd e)) rest"
    and disj: "set (map fst rest) \<inter> set (map fst methods) = {}"
    and dk: "plainKeys value"
    by auto
  have disj': "set (map fst rest) \<inter> set (map fst (assign methods key v)) = {}" for v
    using disj fresh(2) keys_assign [of methods key v] by blast
  consider (fn) "typeof value = ''function''"
    | (obj) "typeof value \<noteq> ''function''" "typeof value = ''object''" "value \<noteq> Null"
    | (const) "typeof value \<noteq> ''function''" "typeof value \<noteq> ''object'' \<or> value = Null"
    by blast
  then show ?case
  proof cases
    case fn
    let ?m = "assign methods key (Number (int (length methodsById)))"
    let ?r = "extractLoop rest constants ?m (methodsById @ [value])"
    have ih: "?T (snd (fst ?r)) = ?T ?m @ map int [length (methodsById @ [value]) ..< length (snd ?r)]"
      by (rule "2.IH"(1) [OF fn rest(1) disj' rest(2)])
    have len: "Suc (length methodsById) \<le> length (snd ?r)"
      by (simp add: extractLoop_table)
    have "?T ?m = ?T methods @ map int [length methodsById ..< Suc (length methodsById)]"
      by (simp add: assign_fresh [OF np fresh(1)])
    with ih have "?T (snd (fst ?r)) = ?T methods @ map int [length methodsById ..< length (snd ?r)]"
      using upt_split [of "length methodsById" "Suc (length methodsById)" "length (snd ?r)"] len
      by simp
    then show ?thesis
      by (simp only: extractLoop_function [OF fn])
  next
    case obj
    obtain cc cm t1 where child: "extractLoop (entries value) [] [] methodsById = ((cc, cm), t1)"
      by (metis surj_pair)
    have t1: "t1 = methodsById @ callables value"
      using extractLoop_table [of "entries value" "[]" "[]" methodsById] child obj(2)
      by (simp add: callables_entries)
    have ch: "?T cm = map int [length methodsById ..< length t1]"
      using "2.IH"(2) [OF obj] plainKeys_entries [OF dk] child by simp
    let ?m = "if 0 < length cm then assign methods key (Object cm) else methods"
    let ?r = "extractLoop rest (assign constants key (Object cc)) ?m t1"
    have "set (map fst rest) \<inter> set (map fst ?m) = {}"
      using disj disj' by simp
    from "2.IH"(3) [OF obj child [symmetric] refl rest(1) this rest(2)]
    have ih: "?T (snd (fst ?r)) = ?T ?m @ map int [length t1 ..< length (snd ?r)]" .
    have len: "length t1 \<le> length (snd ?r)" "length methodsById \<le> length t1"
      using t1 by (simp_all add: extractLoop_table)
    have "?T ?m = ?T methods @ ?T cm"
      by (cases cm) (simp_all add: assign_fresh [OF np fresh(1)])
    with ih ch have "?T (snd (fst ?r)) = ?T methods @ map int [length methodsById ..< length (snd ?r)]"
      using upt_split [OF len(2,1)] by simp
    then show ?thesis
      by (simp only: extractLoop_object [OF obj(2,3) child] length_greater_0_conv)
  next
    case const
    let ?r = "extractLoop rest (assign constants key value) methods methodsById"
    have "?T (snd (fst ?r)) = ?T methods @ map int [length methodsById ..< length (snd ?r)]"
    proof (cases "typeof value = ''object''")
      case True
      with const have "\<not> value \<noteq> Null" by simp
      from "2.IH"(4) [OF const(1) True this rest(1) disj rest(2)] show ?thesis .
    next
      case False
      from "2.IH"(5) [OF const(1) False rest(1) disj rest(2)] show ?thesis .
    qed
    then show ?thesis
      by (simp only: extractLoop_constant [OF const])
  qed
qed

section \<open>Paths through the two trees\<close>

lemma lookupPath_entries: "p \<noteq> [] \<Longrightarrow> lookupPath (Object (entries v)) p = lookupPath v p"
  by (cases p) simp_all

lemma entries_no_object: "typeof v \<noteq> ''object'' \<or> v = Null \<Longrightarrow> entries v = []"
  by (cases v) auto

lemma lookupPath_leaf: "entries v = [] \<Longrightarrow> lookupPath v p = Some f \<Longrightarrow> p = [] \<and> f = v"
  by (cases p) simp_all

lemma step_paths:
  assumes fresh: "key \<notin> set (map fst rest)"
    and m2: "\<And>k. k \<noteq> key \<Longrightarrow> map_of m2 k = map_of m k"
    and head: "\<And>ks f. lookupPath value ks = Some f \<Longrightarrow> typeof f = ''function'' \<Longrightarrow>
        \<exists>i. (case map_of m2 key of None \<Rightarrow> None | Some w \<Rightarrow> lookupPath w ks) = Some (Number (int i)) \<and>
            i < length t2 \<and> t2 ! i = f"
    and ext: "t' = t2 @ ext"
    and fr: "framed (map fst rest) m2 m'"
    and res: "resolves (Object rest) m' t'"
  shows "framed (map fst ((key, value) # rest)) m m' \<and> resolves (Object ((key, value) # rest)) m' t'"
proof
  show "framed (map fst ((key, value) # rest)) m m'"
    using fr m2 by (simp add: framed_def)
next
  have "\<exists>i. lookupPath (Object m') p = Some (Number (int i)) \<and> i < length t' \<and> t' ! i = f"
    if p: "p \<noteq> []" and l: "lookupPath (Object ((key, value) # rest)) p = Some f"
      and f: "typeof f = ''function''" for p f
  proof -
    from p obtain k ks where pk: "p = k # ks" by (cases p) auto
    show ?thesis
    proof (cases "k = key")
      case True
      with l pk have "lookupPath value ks = Some f" by simp
      from head [OF this f] obtain i where i:
        "(case map_of m2 key of None \<Rightarrow> None | Some w \<Rightarrow> lookupPath w ks) = Some (Number (int i))"
        "i < length t2" "t2 ! i = f" by blast
      have "map_of m' key = map_of m2 key"
        using fr fresh by (simp add: framed_def)
      then have "lookupPath (Object m') p = Some (Number (int i))"
        using i(1) pk True by simp
      moreover have "i < length t'" "t' ! i = f"
        using i(2,3) ext by (simp_all add: nth_append)
      ultimately show ?thesis by blast
    next
      case False
      with l pk have "lookupPath (Object rest) p = Some f" by simp
      with res p f show ?thesis by (simp add: resolves_def)
    qed
  qed
  then show "resolves (Object ((key, value) # rest)) m' t'"
    by (simp add: resolves_def)
qed

lemma extractLoop_paths:
  "distinct (protoKey # map fst es) \<Longrightarrow> list_all (\<lambda>e. plainKeys (snd e)) es \<Longrightarrow>
   framed (map fst es) m (snd (fst (extractLoop es c m t))) \<and>
   resolves (Object es) (snd (fst (extractLoop es c m t))) (snd (extractLoop es c m t))"
proof (induction es c m t rule: extractLoop.induct)
  case (1 constants methods methodsById)
  have "lookupPath (Object []) p = None" if "p \<noteq> []" for p
    using that by (cases p) simp_all
  then show ?case by (simp add: extractLoop.simps(1) framed_def resolves_def)
next
  case (2 key "value" rest constants methods methodsById)
  from "2.prems" have fresh: "key \<notin> set (map fst rest)"
    and np: "key \<noteq> protoKey"
    and rest: "distinct (protoKey # map fst rest)" "list_all (\<lambda>e. plainKeys (snd e)) rest"
    and dk: "plainKeys value"
    by auto
  consider (fn) "typeof value = ''function''"
    | (obj) "typeof value \<noteq> ''function''" "typeof value = ''object''" "value \<noteq> Null"
    | (const) "typeof value \<noteq> ''function''" "typeof value \<noteq> ''object'' \<or> value = Null"
    by blast
  then show ?case
  proof cases
    case fn
    let ?m = "assign methods key (Number (int (length methodsById)))"
    let ?t = "methodsById @ [value]"
    let ?r = "extractLoop rest constants ?m ?t"
    have ih: "framed (map fst rest) ?m (snd (fst ?r))" "resolves (Object rest) (snd (fst ?r)) (snd ?r)"
      using "2.IH"(1) [OF fn rest] by simp_all
    have leaf: "entries value = []" using fn by (cases "value") auto
    have "framed (map fst ((key, value) # rest)) methods (snd (fst ?r)) \<and>
          resolves (Object ((key, value) # rest)) (snd (fst ?r)) (snd ?r)"
    proof (rule step_paths [OF fresh _ _ _ ih])
      show "map_of ?m k = map_of methods k" if "k \<noteq> key" for k
        using that by (simp add: map_of_assign [OF np])
      show "snd ?r = ?t @ concat (map (\<lambda>e. callables (snd e)) rest)"
        by (rule extractLoop_table)
      show "\<exists>i. (case map_of ?m key of None \<Rightarrow> None | Some w \<Rightarrow> lookupPath w ks) = Some (Number (int i)) \<and>
            i < length ?t \<and> ?t ! i = f"
        if "lookupPath value ks = Some f" "typeof f = ''function''" for ks f
      proof -
        from lookupPath_leaf [OF leaf that(1)] have "ks = []" "f = value" by simp_all
        then show ?thesis by (simp add: map_of_assign [OF np])
      qed
    qed
    then show ?thesis
      by (simp only: extractLoop_function [OF fn])
  next
    case obj
    obtain cc cm t1 where child: "extractLoop (entries value) [] [] methodsById = ((cc, cm), t1)"
      by (metis surj_pair)
    have ch: "resolves (Object (entries value)) cm t1"
      using "2.IH"(2) [OF obj] plainKeys_entries [OF dk] child by simp
    let ?m = "if 0 < length cm then assign methods key (Object cm) else methods"
    let ?r = "extractLoop rest (assign constants key (Object cc)) ?m t1"
    have ih: "framed (map fst rest) ?m (snd (fst ?r))" "resolves (Object rest) (snd (fst ?r)) (snd ?r)"
      using "2.IH"(3) [OF obj child [symmetric] refl rest] by simp_all
    have "framed (map fst ((key, value) # rest)) methods (snd (fst ?r)) \<and>
          resolves (Object ((key, value) # rest)) (snd (fst ?r)) (snd ?r)"
    proof (rule step_paths [OF fresh _ _ _ ih])
      show "map_of ?m k = map_of methods k" if "k \<noteq> key" for k
        using that by (simp add: map_of_assign [OF np])
      show "snd ?r = t1 @ concat (map (\<lambda>e. callables (snd e)) rest)"
        by (rule extractLoop_table)
      show "\<exists>i. (case map_of ?m key of None \<Rightarrow> None | Some w \<Rightarrow> lookupPath w ks) = Some (Number (int i)) \<and>
            i < length t1 \<and> t1 ! i = f"
        if l: "lookupPath value ks = Some f" and f: "typeof f = ''function''" for ks f
      proof -
        have ks: "ks \<noteq> []" using l f obj(1) by (cases ks) auto
        then have "lookupPath (Object (entries value)) ks = Some f"
          using l by (simp add: lookupPath_entries)
        with ch ks f obtain i where i: "lookupPath (Object cm) ks = Some (Number (int i))"
          "i < length t1" "t1 ! i = f"
          by (auto simp: resolves_def)
        have "cm \<noteq> []" using i(1) ks by (cases ks) auto
        then show ?thesis using i by (auto simp: map_of_assign [OF np])
      qed
    qed
    then show ?thesis
      by (simp only: extractLoop_object [OF obj(2,3) child] length_greater_0_conv)
  next
    case const
    let ?r = "extractLoop rest (assign constants key value) methods methodsById"
    have "framed (map fst rest) methods (snd (fst ?r)) \<and> resolves (Object rest) (snd (fst ?r)) (snd ?r)"
    proof (cases "typeof value = ''object''")
      case True
      with const have "\<not> value \<noteq> Null" by simp
      from "2.IH"(4) [OF const(1) True this rest] show ?thesis .
    next
      case False
      from "2.IH"(5) [OF const(1) False rest] show ?thesis .
    qed
    then have ih: "framed (map fst rest) methods (snd (fst ?r))"
      "resolves (Object rest) (snd (fst ?r)) (snd ?r)" by simp_all
    have leaf: "entries value = []" using const(2) by (rule entries_no_object)
    have "framed (map fst ((key, value) # rest)) methods (snd (fst ?r)) \<and>
          resolves (Object ((key, value) # rest)) (snd (fst ?r)) (snd ?r)"
    proof (rule step_paths [OF fresh _ _ _ ih])
      show "map_of methods k = map_of methods k" for k ..
      show "snd ?r = methodsById @ concat (map (\<lambda>e. callables (snd e)) rest)"
        by (rule extractLoop_table)
      show "\<exists>i. (case map_of methods key of None \<Rightarrow> None | Some w \<Rightarrow> lookupPath w ks) = Some (Number (int i)) \<and>
            i < length methodsById \<and> methodsById ! i = f"
        if "lookupPath value ks = Some f" "typeof f = ''function''" for ks f
        using lookupPath_leaf [OF leaf that(1)] that(2) const(1) by simp
    qed
    then show ?thesis
      by (simp only: extractLoop_constant [OF const])
  qed
qed

lemma step_keeps:
  assumes fresh: "key \<notin> set (map fst rest)"
    and c2: "\<And>k. k \<noteq> key \<Longrightarrow> map_of c2 k = map_of c k"
    and head: "\<And>ks v. lookupPath value ks = Some v \<Longrightarrow> typeof v \<noteq> ''function'' \<Longrightarrow>
        (if typeof v = ''object'' \<and> v \<noteq> Null
         then \<exists>cs. (case map_of c2 key of None \<Rightarrow> None | Some w \<Rightarrow> lookupPath w ks) = Some (Object cs)
         else (case map_of c2 key of None \<Rightarrow> None | Some w \<Rightarrow> lookupPath w ks) = Some v)"
    and fr: "framed (map fst rest) c2 c'"
    and res: "keeps (Object rest) c'"
  shows "framed (map fst ((key, value) # rest)) c c' \<and> keeps (Object ((key, value) # rest)) c'"
proof
  show "framed (map fst ((key, value) # rest)) c c'"
    using fr c2 by (simp add: framed_def)
next
  have "if typeof v = ''object'' \<and> v \<noteq> Null
        then \<exists>cs. lookupPath (Object c') p = Some (Object cs)
        else lookupPath (Object c') p = Some v"
    if p: "p \<noteq> []" and l: "lookupPath (Object ((key, value) # rest)) p = Some v"
      and f: "typeof v \<noteq> ''function''" for p v
  proof -
    from p obtain k ks where pk: "p = k # ks" by (cases p) auto
    show ?thesis
    proof (cases "k = key")
      case True
      with l pk have "lookupPath value ks = Some v" by simp
      note h = head [OF this f]
      have "map_of c' key = map_of c2 key"
        using fr fresh by (simp add: framed_def)
      then have "lookupPath (Object c') p =
                 (case map_of c2 key of None \<Rightarrow> None | Some w \<Rightarrow> lookupPath w ks)"
        using pk True by simp
      with h show ?thesis by simp
    next
      case False
      with l pk have "lookupPath (Object rest) p = Some v" by simp
      with res p f show ?thesis unfolding keeps_def by blast
    qed
  qed
  then show "keeps (Object ((key, value) # rest)) c'"
    unfolding keeps_def by blast
qed

lemma extractLoop_keeps:
  "distinct (protoKey # map fst es) \<Longrightarrow> list_all (\<lambda>e. plainKeys (snd e)) es \<Longrightarrow>
   framed (map fst es) c (fst (fst (extractLoop es c m t))) \<and>
   keeps (Object es) (fst (fst (extractLoop es c m t)))"
proof (induction es c m t rule: extractLoop.induct)
  case (1 constants methods methodsById)
  have "lookupPath (Object []) p = None" if "p \<noteq> []" for p
    using that by (cases p) simp_all
  then show ?case by (simp add: extractLoop.simps(1) framed_def keeps_def)
next
  case (2 key "value" rest constants methods methodsById)
  from "2.prems" have fresh: "key \<notin> set (map fst rest)"
    and np: "key \<noteq> protoKey"
    and rest: "distinct (protoKey # map fst rest)" "list_all (\<lambda>e. plainKeys (snd e)) rest"
    and dk: "plainKeys value"
    by auto
  consider (fn) "typeof value = ''function''"
    | (obj) "typeof value \<noteq> ''function''" "typeof value = ''object''" "value \<noteq> Null"
    | (const) "typeof value \<noteq> ''function''" "typeof value \<noteq> ''object'' \<or> value = Null"
    by blast
  then show ?case
  proof cases
    case fn
    let ?r = "extractLoop rest constants (assign methods key (Number (int (length methodsById))))
                (methodsById @ [value])"
    have ih: "framed (map fst rest) constants (fst (fst ?r))" "keeps (Object rest) (fst (fst ?r))"
      using "2.IH"(1) [OF fn rest] by simp_all
    have leaf: "entries value = []" using fn by (cases "value") auto
    have "framed (map fst ((key, value) # rest)) constants (fst (fst ?r)) \<and>
          keeps (Object ((key, value) # rest)) (fst (fst ?r))"
    proof (rule step_keeps [OF fresh _ _ ih])
      show "map_of constants k = map_of constants k" for k ..
      show "if typeof v = ''object'' \<and> v \<noteq> Null
         then \<exists>cs. (case map_of constants key of None \<Rightarrow> None | Some w \<Rightarrow> lookupPath w ks) = Some (Object cs)
         else (case map_of constants key of None \<Rightarrow> None | Some w \<Rightarrow> lookupPath w ks) = Some v"
        if "lookupPath value ks = Some v" "typeof v \<noteq> ''function''" for ks v
        using lookupPath_leaf [OF leaf that(1)] that(2) fn by simp
    qed
    then show ?thesis
      by (simp only: extractLoop_function [OF fn])
  next
    case obj
    obtain cc cm t1 where child: "extractLoop (entries value) [] [] methodsById = ((cc, cm), t1)"
      by (metis surj_pair)
    have ch: "keeps (Object (entries value)) cc"
      using "2.IH"(2) [OF obj] plainKeys_entries [OF dk] child by simp
    let ?c = "assign constants key (Object cc)"
    let ?r = "extractLoop rest ?c
                (if 0 < length cm then assign methods key (Object cm) else methods) t1"
    have ih: "framed (map fst rest) ?c (fst (fst ?r))" "keeps (Object rest) (fst (fst ?r))"
      using "2.IH"(3) [OF obj child [symmetric] refl rest] by simp_all
    have "framed (map fst ((key, value) # rest)) constants (fst (fst ?r)) \<and>
          keeps (Object ((key, value) # rest)) (fst (fst ?r))"
    proof (rule step_keeps [OF fresh _ _ ih])
      show "map_of ?c k = map_of constants k" if "k \<noteq> key" for k
        using that by (simp add: map_of_assign [OF np])
      show "if typeof v = ''object'' \<and> v \<noteq> Null
         then \<exists>cs. (case map_of ?c key of None \<Rightarrow> None | Some w \<Rightarrow> lookupPath w ks) = Some (Object cs)
         else (case map_of ?c key of None \<Rightarrow> None | Some w \<Rightarrow> lookupPath w ks) = Some v"
        if l: "lookupPath value ks = Some v" and f: "typeof v \<noteq> ''function''" for ks v
      proof (cases "ks = []")
        case True
        with l have "v = value" by simp
        with True obj show ?thesis by (simp add: map_of_assign [OF np])
      next
        case False
        then have "lookupPath (Object (entries value)) ks = Some v"
          using l by (simp add: lookupPath_entries)
        with ch False f have "if typeof v = ''object'' \<and> v \<noteq> Null
           then \<exists>cs. lookupPath (Object cc) ks = Some (Object cs)
           else lookupPath (Object cc) ks = Some v"
          unfolding keeps_def by blast
        then show ?thesis by (simp add: map_of_assign [OF np])
      qed
    qed
    then show ?thesis
      by (simp only: extractLoop_object [OF obj(2,3) child] length_greater_0_conv)
  next
    case const
    let ?c = "assign constants key value"
    let ?r = "extractLoop rest ?c methods methodsById"
    have "framed (map fst rest) ?c (fst (fst ?r)) \<and> keeps (Object rest) (fst (fst ?r))"
    proof (cases "typeof value = ''object''")
      case True
      with const have "\<not> value \<noteq> Null" by simp
      from "2.IH"(4) [OF const(1) True this rest] show ?thesis .
    next
      case False
      from "2.IH"(5) [OF const(1) False rest] show ?thesis .
    qed
    then have ih: "framed (map fst rest) ?c (fst (fst ?r))" "keeps (Object rest) (fst (fst ?r))"
      by simp_all
    have leaf: "entries value = []" using const(2) by (rule entries_no_object)
    have "framed (map fst ((key, value) # rest)) constants (fst (fst ?r)) \<and>
          keeps (Object ((key, value) # rest)) (fst (fst ?r))"
    proof (rule step_keeps [OF fresh _ _ ih])
      show "map_of ?c k = map_of constants k" if "k \<noteq> key" for k
        using that by (simp add: map_of_assign [OF np])
      show "if typeof v = ''object'' \<and> v \<noteq> Null
         then \<exists>cs. (case map_of ?c key of None \<Rightarrow> None | Some w \<Rightarrow> lookupPath w ks) = Some (Object cs)
         else (case map_of ?c key of None \<Rightarrow> None | Some w \<Rightarrow> lookupPath w ks) = Some v"
        if "lookupPath value ks = Some v" "typeof v \<noteq> ''function''" for ks v
        using lookupPath_leaf [OF leaf that(1)] const(2) by (auto simp: map_of_assign [OF np])
    qed
    then show ?thesis
      by (simp only: extractLoop_constant [OF const])
  qed
qed

section \<open>The guest's merge\<close>

lemma functionFree_proxiesOnly: "functionFree v \<Longrightarrow> proxiesOnly v"
  by (induction v) (auto simp: list_all_iff)

lemma injectMethods_proxiesOnly:
  "list_all (\<lambda>e. proxiesOnly (snd e)) dest \<Longrightarrow>
   list_all (\<lambda>e. proxiesOnly (snd e)) (injectMethods ms dest)"
proof (induction ms dest rule: injectMethods.induct)
  case (1 dest)
  then show ?case by (simp add: injectMethods.simps(1))
next
  case (2 key "value" rest dest)
  show ?case
  proof (cases "value")
    case (Object es)
    have "list_all (\<lambda>e. proxiesOnly (snd e)) (injectMethods (entries value) [])"
      using "2.IH"(1) Object by simp
    then have "list_all (\<lambda>e. proxiesOnly (snd e))
                 (assign dest key (Object (injectMethods (entries value) [])))"
      using "2.prems" by (simp add: list_all_assign)
    then show ?thesis using "2.IH"(2) Object by (simp add: injectMethods.simps(2))
  next
    case (Array vs)
    have "list_all (\<lambda>e. proxiesOnly (snd e)) (injectMethods (entries value) [])"
      using "2.IH"(1) Array by simp
    then have "list_all (\<lambda>e. proxiesOnly (snd e))
                 (assign dest key (Object (injectMethods (entries value) [])))"
      using "2.prems" by (simp add: list_all_assign)
    then show ?thesis using "2.IH"(2) Array by (simp add: injectMethods.simps(2))
  next
    case (Number n)
    have "list_all (\<lambda>e. proxiesOnly (snd e)) (assign dest key (Proxy n))"
      using "2.prems" by (simp add: list_all_assign)
    then show ?thesis using "2.IH"(7) Number by (simp add: injectMethods.simps(2))
  qed (use "2.IH" "2.prems" in \<open>simp_all add: injectMethods.simps(2)\<close>)
qed

lemma distinct_assign:
  "distinct (protoKey # map fst es) \<Longrightarrow> distinct (protoKey # map fst (assign es k v))"
  by (auto simp: assign_def map_fst_putOwn keys_putOwn_image)

lemma plainKeys_constant:
  "typeof value \<noteq> ''function'' \<Longrightarrow> typeof value \<noteq> ''object'' \<or> value = Null \<Longrightarrow>
   plainKeys value"
  by (cases "value") auto

lemma extractLoop_plainKeys:
  "plainKeys (Object c) \<Longrightarrow> plainKeys (Object m) \<Longrightarrow>
   plainKeys (Object (fst (fst (extractLoop es c m t)))) \<and>
   plainKeys (Object (snd (fst (extractLoop es c m t))))"
proof (induction es c m t rule: extractLoop.induct)
  case (1 constants methods methodsById)
  then show ?case by (simp add: extractLoop.simps(1))
next
  case (2 key "value" rest constants methods methodsById)
  have upd: "plainKeys (Object (assign es k v))" if "plainKeys (Object es)" "plainKeys v"
    for es k v
  proof -
    from that(1) have "distinct (protoKey # map fst es)" "list_all (\<lambda>e. plainKeys (snd e)) es"
      by simp_all
    with that(2) distinct_assign [of es k v] show ?thesis
      by (simp add: list_all_assign)
  qed
  consider (fn) "typeof value = ''function''"
    | (obj) "typeof value \<noteq> ''function''" "typeof value = ''object''" "value \<noteq> Null"
    | (const) "typeof value \<noteq> ''function''" "typeof value \<noteq> ''object'' \<or> value = Null"
    by blast
  then show ?case
  proof cases
    case fn
    have "plainKeys (Object (assign methods key (Number (int (length methodsById)))))"
      using "2.prems"(2) by (intro upd) simp_all
    from "2.IH"(1) [OF fn "2.prems"(1) this] show ?thesis
      by (simp only: extractLoop_function [OF fn])
  next
    case obj
    obtain cc cm t1 where child: "extractLoop (entries value) [] [] methodsById = ((cc, cm), t1)"
      by (metis surj_pair)
    have ch: "plainKeys (Object cc)" "plainKeys (Object cm)"
      using "2.IH"(2) [OF obj] child by simp_all
    have c: "plainKeys (Object (assign constants key (Object cc)))"
      using "2.prems"(1) ch(1) by (intro upd)
    have m: "plainKeys (Object (if 0 < length cm then assign methods key (Object cm) else methods))"
      using "2.prems"(2) ch(2) upd [of methods "Object cm" key] by simp
    from "2.IH"(3) [OF obj child [symmetric] refl c m] show ?thesis
      by (simp add: extractLoop_object [OF obj(2,3) child])
  next
    case const
    have c: "plainKeys (Object (assign constants key value))"
      using "2.prems"(1) plainKeys_constant [OF const] by (intro upd)
    let ?r = "extractLoop rest (assign constants key value) methods methodsById"
    have "plainKeys (Object (fst (fst ?r))) \<and> plainKeys (Object (snd (fst ?r)))"
    proof (cases "typeof value = ''object''")
      case True
      with const have "\<not> value \<noteq> Null" by simp
      from "2.IH"(4) [OF const(1) True this c "2.prems"(2)] show ?thesis .
    next
      case False
      from "2.IH"(5) [OF const(1) False c "2.prems"(2)] show ?thesis .
    qed
    then show ?thesis
      by (simp only: extractLoop_constant [OF const])
  qed
qed

lemma injectMethods_object:
  "typeof value = ''object'' \<Longrightarrow> value \<noteq> Null \<Longrightarrow>
   injectMethods ((key, value) # rest) dest =
     injectMethods rest (assign dest key (Object (injectMethods (entries value) [])))"
  by (simp add: injectMethods.simps)

lemma injectMethods_number:
  "injectMethods ((key, Number n) # rest) dest = injectMethods rest (assign dest key (Proxy n))"
  by (simp add: injectMethods.simps)

lemma injectMethods_skip:
  "typeof value \<noteq> ''number'' \<Longrightarrow> typeof value \<noteq> ''object'' \<or> value = Null \<Longrightarrow>
   injectMethods ((key, value) # rest) dest = injectMethods rest dest"
  by (cases "value") (simp_all add: injectMethods.simps)

lemma step_installs:
  assumes fresh: "key \<notin> set (map fst rest)"
    and d2: "\<And>k. k \<noteq> key \<Longrightarrow> map_of d2 k = map_of d k"
    and head: "\<And>ks n. lookupPath value ks = Some (Number n) \<Longrightarrow>
        (case map_of d2 key of None \<Rightarrow> None | Some w \<Rightarrow> lookupPath w ks) = Some (Proxy n)"
    and fr: "framed (map fst rest) d2 d'"
    and res: "installs rest d'"
  shows "framed (map fst ((key, value) # rest)) d d' \<and> installs ((key, value) # rest) d'"
proof
  show "framed (map fst ((key, value) # rest)) d d'"
    using fr d2 by (simp add: framed_def)
next
  have "lookupPath (Object d') p = Some (Proxy n)"
    if p: "p \<noteq> []" and l: "lookupPath (Object ((key, value) # rest)) p = Some (Number n)" for p n
  proof -
    from p obtain k ks where pk: "p = k # ks" by (cases p) auto
    show ?thesis
    proof (cases "k = key")
      case True
      with l pk have "lookupPath value ks = Some (Number n)" by simp
      note h = head [OF this]
      have "map_of d' key = map_of d2 key"
        using fr fresh by (simp add: framed_def)
      with h show ?thesis using pk True by simp
    next
      case False
      with l pk have "lookupPath (Object rest) p = Some (Number n)" by simp
      with res p show ?thesis unfolding installs_def by blast
    qed
  qed
  then show "installs ((key, value) # rest) d'"
    unfolding installs_def by blast
qed

lemma injectMethods_installs:
  "distinct (protoKey # map fst ms) \<Longrightarrow> list_all (\<lambda>e. plainKeys (snd e)) ms \<Longrightarrow>
   framed (map fst ms) dest (injectMethods ms dest) \<and> installs ms (injectMethods ms dest)"
proof (induction ms dest rule: injectMethods.induct)
  case (1 dest)
  have "lookupPath (Object []) p = None" if "p \<noteq> []" for p
    using that by (cases p) simp_all
  then show ?case by (simp add: injectMethods.simps(1) framed_def installs_def)
next
  case (2 key "value" rest dest)
  from "2.prems" have fresh: "key \<notin> set (map fst rest)"
    and np: "key \<noteq> protoKey"
    and rest: "distinct (protoKey # map fst rest)" "list_all (\<lambda>e. plainKeys (snd e)) rest"
    and dk: "plainKeys value"
    by auto
  consider (obj) "typeof value = ''object''" "value \<noteq> Null"
    | (num) n where "value = Number n"
    | (skip) "typeof value \<noteq> ''number''" "typeof value \<noteq> ''object'' \<or> value = Null"
    by (cases "value") auto
  then show ?case
  proof cases
    case obj
    let ?child = "injectMethods (entries value) []"
    let ?d = "assign dest key (Object ?child)"
    have ch: "installs (entries value) ?child"
      using "2.IH"(1) [OF obj] plainKeys_entries [OF dk] by simp
    have ih: "framed (map fst rest) ?d (injectMethods rest ?d)" "installs rest (injectMethods rest ?d)"
      using "2.IH"(2) [OF obj rest] by simp_all
    have "framed (map fst ((key, value) # rest)) dest (injectMethods rest ?d) \<and>
          installs ((key, value) # rest) (injectMethods rest ?d)"
    proof (rule step_installs [OF fresh _ _ ih])
      show "map_of ?d k = map_of dest k" if "k \<noteq> key" for k
        using that by (simp add: map_of_assign [OF np])
      show "(case map_of ?d key of None \<Rightarrow> None | Some w \<Rightarrow> lookupPath w ks) = Some (Proxy n)"
        if l: "lookupPath value ks = Some (Number n)" for ks n
      proof -
        have ks: "ks \<noteq> []" using l obj(1) by (cases ks) auto
        then have "lookupPath (Object (entries value)) ks = Some (Number n)"
          using l by (simp add: lookupPath_entries)
        with ch ks have "lookupPath (Object ?child) ks = Some (Proxy n)"
          unfolding installs_def by blast
        then show ?thesis by (simp add: map_of_assign [OF np])
      qed
    qed
    then show ?thesis
      by (simp only: injectMethods_object [OF obj])
  next
    case num
    let ?d = "assign dest key (Proxy n)"
    have ih: "framed (map fst rest) ?d (injectMethods rest ?d)" "installs rest (injectMethods rest ?d)"
      using "2.IH"(7) [OF _ _ num rest] num by simp_all
    have "framed (map fst ((key, value) # rest)) dest (injectMethods rest ?d) \<and>
          installs ((key, value) # rest) (injectMethods rest ?d)"
    proof (rule step_installs [OF fresh _ _ ih])
      show "map_of ?d k = map_of dest k" if "k \<noteq> key" for k
        using that by (simp add: map_of_assign [OF np])
      show "(case map_of ?d key of None \<Rightarrow> None | Some w \<Rightarrow> lookupPath w ks) = Some (Proxy m)"
        if l: "lookupPath value ks = Some (Number m)" for ks m
      proof -
        have "entries value = []" using num by simp
        from lookupPath_leaf [OF this l] num show ?thesis by (simp add: map_of_assign [OF np])
      qed
    qed
    then show ?thesis
      by (simp only: num injectMethods_number)
  next
    case skip
    have "framed (map fst rest) dest (injectMethods rest dest) \<and> installs rest (injectMethods rest dest)"
      using "2.IH"(3-6,8-13) rest skip by (cases "value") simp_all
    then have ih: "framed (map fst rest) dest (injectMethods rest dest)"
      "installs rest (injectMethods rest dest)" by simp_all
    have leaf: "entries value = []" using skip(2) by (rule entries_no_object)
    have "framed (map fst ((key, value) # rest)) dest (injectMethods rest dest) \<and>
          installs ((key, value) # rest) (injectMethods rest dest)"
    proof (rule step_installs [OF fresh _ _ ih])
      show "map_of dest k = map_of dest k" for k ..
      show "(case map_of dest key of None \<Rightarrow> None | Some w \<Rightarrow> lookupPath w ks) = Some (Proxy n)"
        if l: "lookupPath value ks = Some (Number n)" for ks n
        using lookupPath_leaf [OF leaf l] skip(1) by auto
    qed
    then show ?thesis
      by (simp only: injectMethods_skip [OF skip])
  qed
qed

section \<open>Tokens and dispatch\<close>

text \<open>
  Claim C5. For every graph of globals: the table holds the functions of the graph in
  the order of the traversal, so the token of the \<open>i\<close>-th function met is \<open>i\<close>;
  \<open>onMethod\<close> on token \<open>i\<close> invokes that function; the two trees sent to the guest
  hold no function, and the functions of the merged tree are proxy closures. Where
  every object has each key once and none of the name \<^verbatim>\<open>__proto__\<close>, the methods tree
  holds the tokens \<open>0, \<dots>, n - 1\<close> in that order, each once, the token at the path of a
  function of the source is the index of this function in the table, and the merged
  tree has the proxy of that token at this path.
\<close>

theorem split_tokens_in_order:
  "case extractMethods (Object source) [] of
     ((constants, methods), methodsById) \<Rightarrow>
       methodsById = callables (Object source) \<and>
       (\<forall>i<length methodsById.
          onMethod methodsById (Number (int i)) params =
            Invokes (callables (Object source) ! i) params) \<and>
       functionFree (Object constants) \<and> functionFree (Object methods) \<and>
       proxiesOnly (Object (injectMethods methods constants)) \<and>
       (plainKeys (Object source) \<longrightarrow>
          tokens (Object methods) = map int [0..<length methodsById] \<and>
          resolves (Object source) methods methodsById \<and>
          proxied (Object source) (injectMethods methods constants) methodsById)"
proof -
  obtain constants methods methodsById where
    r: "extractLoop source [] [] [] = ((constants, methods), methodsById)"
    by (metis surj_pair)
  have tbl: "methodsById = callables (Object source)"
    using extractLoop_table [of source "[]" "[]" "[]"] r by simp
  have fns: "list_all (\<lambda>f. typeof f = ''function'') (callables v)" for v
    by (induction v) (auto simp: list_all_iff)
  have disp: "onMethod methodsById (Number (int i)) params =
                Invokes (callables (Object source) ! i) params"
    if "i < length methodsById" for i
  proof -
    from fns [of "Object source"] that tbl have "typeof (methodsById ! i) = ''function''"
      by (simp add: list_all_length)
    then show ?thesis using that tbl by (simp add: onMethod_def callValue_def)
  qed
  have ff: "functionFree (Object constants)" "functionFree (Object methods)"
    using extractLoop_functionFree [of "[]" "[]" source "[]"] r by simp_all
  then have "list_all (\<lambda>e. proxiesOnly (snd e)) constants"
    using functionFree_proxiesOnly [of "Object constants"] by simp
  then have po: "proxiesOnly (Object (injectMethods methods constants))"
    by (simp add: injectMethods_proxiesOnly)
  have trees: "tokens (Object methods) = map int [0..<length methodsById] \<and>
      resolves (Object source) methods methodsById \<and>
      proxied (Object source) (injectMethods methods constants) methodsById"
    if "plainKeys (Object source)"
  proof -
    from that have d: "distinct (protoKey # map fst source)"
      "list_all (\<lambda>e. plainKeys (snd e)) source"
      by simp_all
    have tok: "tokens (Object methods) = map int [0..<length methodsById]"
      using extractLoop_tokens [OF d(1) _ d(2), of "[]" "[]" "[]"] r by simp
    have res: "resolves (Object source) methods methodsById"
      using extractLoop_paths [OF d, of "[]" "[]" "[]"] r by simp
    have "plainKeys (Object methods)"
      using extractLoop_plainKeys [of "[]" "[]" source "[]"] r by simp
    then have "installs methods (injectMethods methods constants)"
      using injectMethods_installs [of methods constants] by simp
    with res have "proxied (Object source) (injectMethods methods constants) methodsById"
      unfolding resolves_def installs_def proxied_def by blast
    with tok res show ?thesis by simp
  qed
  from tbl disp ff po trees show ?thesis
    by (simp add: extractMethods_def r)
qed

theorem split_tokens_in_order_witness:
  "plainKeys nestedGlobals \<and>
   extractMethods nestedGlobals [] =
     (([(str ''math'', Object [(str ''pi'', Number 3)]),
        (str ''version'', String (str ''1.0.0''))],
       [(str ''math'', Object [(str ''add'', Number 0), (str ''multiply'', Number 1)]),
        (str ''log'', Number 2)]),
      [Function ''add'', Function ''multiply'', Function ''log'']) \<and>
   onMethod [Function ''add'', Function ''multiply'', Function ''log''] (Number 1)
       [Number 4, Number 5] =
     Invokes (Function ''multiply'') [Number 4, Number 5]"
proof -
  have h: "plainKeys nestedGlobals"
    by (simp add: nestedGlobals_def protoKey_def str_def)
  have e: "extractMethods nestedGlobals [] =
     (([(str ''math'', Object [(str ''pi'', Number 3)]),
        (str ''version'', String (str ''1.0.0''))],
       [(str ''math'', Object [(str ''add'', Number 0), (str ''multiply'', Number 1)]),
        (str ''log'', Number 2)]),
      [Function ''add'', Function ''multiply'', Function ''log''])"
    by (simp add: nestedGlobals_def extractMethods_def extractLoop.simps assign_def protoKey_def
        str_def)
  show ?thesis
    using h e
      split_tokens_in_order [of "entries nestedGlobals" "[Number 4, Number 5]"]
    by (simp add: nestedGlobals_def onMethod_def callValue_def)
qed

section \<open>Arrays\<close>

text \<open>
  Claim C2, evaluated on the code. The claim has an array placed in the constants tree
  as it is, and the README shows globals \<^verbatim>\<open>{ fruit: ['apple', 'banana'] }\<close> on which the
  guest calls \<^verbatim>\<open>fruit.push\<close>. The splitter tests \<^verbatim>\<open>typeof value\<close> only, which is
  \<^verbatim>\<open>'object'\<close> for an array, and traverses it: the constants tree holds the plain object
  \<^verbatim>\<open>{ '0': 'apple', '1': 'banana' }\<close>, \<^verbatim>\<open>return fruit\<close> yields that object in the guest and
  \<^verbatim>\<open>fruit.push\<close> is \<open>undefined\<close>. For an array of a function and a number the function
  gets the token 0, the methods tree holds it under the key \<open>0\<close> and the constants
  tree holds the number under the key \<open>1\<close> of a plain object.
\<close>

theorem array_is_traversed:
  "(case splitGlobals (Some fruitGlobals) of
      ((constants, methods), methodsById) \<Rightarrow>
        (constants, methods, methodsById,
         runReturn (setGlobals constants methods []) [str ''fruit''],
         runReturn (setGlobals constants methods []) [str ''fruit'', str ''push''])) =
   ([(str ''fruit'',
      Object [(str ''0'', String (str ''apple'')), (str ''1'', String (str ''banana''))])],
    [], [],
    Inr (Object [(str ''0'', String (str ''apple'')), (str ''1'', String (str ''banana''))]),
    Inr Undefined) \<and>
   extractMethods (Object [(str ''list'', Array [Function ''f'', Number 5])]) [] =
     (([(str ''list'', Object [(str ''1'', Number 5)])],
       [(str ''list'', Object [(str ''0'', Number 0)])]),
      [Function ''f''])"
  by (simp add: splitGlobals_def fruitGlobals_def extractMethods_def extractLoop.simps
      setGlobals_def injectMethods.simps assign_def protoKey_def decimal.simps str_def upt_rec)

text \<open>
  In general, for globals whose objects have each key once and none of the name
  \<^verbatim>\<open>__proto__\<close>: an array is traversed as the object is that has the array's elements
  under their decimal indices; the constants tree holds a plain object at the array's
  key, and a function stored in element \<open>i\<close> gets a token, which the methods tree
  holds at the array's key and the key \<open>i\<close>, and on which \<open>onMethod\<close> invokes that
  function.
\<close>

lemma array_elements_get_tokens:
  assumes "plainKeys (Object source)" and "map_of source key = Some (Array vs)"
    and "i < length vs" and "typeof (vs ! i) = ''function''"
  shows "extractLoop ((key, Array vs) # rest) c m t =
           extractLoop ((key, Object (entries (Array vs))) # rest) c m t \<and>
         (case extractMethods (Object source) [] of
            ((constants, methods), methodsById) \<Rightarrow>
              (\<exists>cs. map_of constants key = Some (Object cs)) \<and>
              (\<exists>token. lookupPath (Object methods) [key, decimal i] = Some (Number (int token)) \<and>
                 onMethod methodsById (Number (int token)) params = Invokes (vs ! i) params))"
proof
  obtain cc cm t1 where child: "extractLoop (entries (Array vs)) [] [] t = ((cc, cm), t1)"
    by (metis surj_pair)
  have "extractLoop ((key, Array vs) # rest) c m t =
          extractLoop rest (assign c key (Object cc))
            (if cm \<noteq> [] then assign m key (Object cm) else m) t1"
    by (rule extractLoop_object [OF _ _ child]) simp_all
  moreover have "extractLoop ((key, Object (entries (Array vs))) # rest) c m t =
          extractLoop rest (assign c key (Object cc))
            (if cm \<noteq> [] then assign m key (Object cm) else m) t1"
    by (rule extractLoop_object) (simp_all only: typeof.simps entries.simps(1) child jsval.distinct not_False_eq_True)
  ultimately show "extractLoop ((key, Array vs) # rest) c m t =
           extractLoop ((key, Object (entries (Array vs))) # rest) c m t"
    by simp
next
  obtain constants methods methodsById where
    r: "extractLoop source [] [] [] = ((constants, methods), methodsById)"
    by (metis surj_pair)
  from assms(1) have d: "distinct (protoKey # map fst source)" "list_all (\<lambda>e. plainKeys (snd e)) source"
    by simp_all
  have path: "lookupPath (Object source) [key, decimal i] = Some (vs ! i)"
    using assms(2,3) map_of_entries_Array [of i vs] by (simp del: entries.simps(2))
  have "resolves (Object source) methods methodsById"
    using extractLoop_paths [OF d, of "[]" "[]" "[]"] r by simp
  with path assms(4) obtain token where
    tk: "lookupPath (Object methods) [key, decimal i] = Some (Number (int token))"
    "token < length methodsById" "methodsById ! token = vs ! i"
    unfolding resolves_def by blast
  have inv: "onMethod methodsById (Number (int token)) params = Invokes (vs ! i) params"
    using tk(2,3) assms(4) by (simp add: onMethod_def callValue_def)
  have "keeps (Object source) constants"
    using extractLoop_keeps [OF d, of "[]" "[]" "[]"] r by simp
  moreover have "lookupPath (Object source) [key] = Some (Array vs)"
    using assms(2) by simp
  ultimately have "\<exists>cs. lookupPath (Object constants) [key] = Some (Object cs)"
    unfolding keeps_def by fastforce
  then have "\<exists>cs. map_of constants key = Some (Object cs)"
    by (auto split: option.splits)
  with tk(1) inv show "case extractMethods (Object source) [] of
            ((constants, methods), methodsById) \<Rightarrow>
              (\<exists>cs. map_of constants key = Some (Object cs)) \<and>
              (\<exists>token. lookupPath (Object methods) [key, decimal i] = Some (Number (int token)) \<and>
                 onMethod methodsById (Number (int token)) params = Invokes (vs ! i) params)"
    by (auto simp: extractMethods_def r)
qed

section \<open>Constants beside functions\<close>

text \<open>
  Claim C1, evaluated on the code. For the globals
  \<^verbatim>\<open>{ math: { pi: 3, add, multiply }, version: '1.0.0', log }\<close> the splitter keeps
  \<open>math.pi\<close> in the constants tree, but \<open>injectMethods\<close> assigns a fresh object to
  \<open>math\<close> before it installs the proxies, so in the guest \<^verbatim>\<open>return math.pi\<close> yields
  \<open>undefined\<close>, while \<^verbatim>\<open>return version\<close> yields the constant.
\<close>

theorem sibling_constant_lost:
  "(case splitGlobals (Some nestedGlobals) of
      ((constants, methods), methodsById) \<Rightarrow>
        (lookupPath (Object constants) [str ''math'', str ''pi''],
         runReturn (setGlobals constants methods []) [str ''math'', str ''pi''],
         runReturn (setGlobals constants methods []) [str ''math'', str ''add''],
         runReturn (setGlobals constants methods []) [str ''version''])) =
   (Some (Number 3), Inr Undefined, Inr (Proxy 0), Inr (String (str ''1.0.0'')))"
  by (simp add: splitGlobals_def nestedGlobals_def extractMethods_def extractLoop.simps
      setGlobals_def injectMethods.simps assign_def protoKey_def str_def)

end
